theory Spec2Isabelle
  imports Complex_Main "HOL-Library.Multiset" "HOL-Library.Sublist"
begin

section \<open>Coin-flip compressibility analysis: the scripts under stats-study-guide/scripts\<close>

text \<open>
  The scripts \<^verbatim>\<open>runlength_huffman.py\<close>, \<^verbatim>\<open>advanced_compression.py\<close>,
  \<^verbatim>\<open>huffman_compression.py\<close> and \<^verbatim>\<open>compression_analysis.py\<close> are embedded
  function by function. Python lists are HOL lists, Python's unbounded integers are
  \<open>int\<close> (stream values, frequencies) or \<open>nat\<close> (counters that start at 0 or 1 and are
  only incremented), strings are \<open>string\<close>, dictionaries are association lists where the
  insertion order decides what the code computes (\<open>Counter\<close>, fed to \<open>heapify\<close>) and maps
  where it does not (code tables). Every exception the code can raise is a value of
  \<open>error\<close>, returned as \<open>Inl\<close>.
\<close>

datatype error =
  IndexError | KeyError | ZeroDivisionError | ValueError | AttributeError | MalformedStreamError

subsection \<open>Transition streams\<close>

text \<open>
  \<^verbatim>\<open>def to_transitions(flips: str) -> List[int]:
    return [1 if flips[i] != flips[i-1] else 0 for i in range(1, len(flips))]\<close>
  (the same line in \<^verbatim>\<open>runlength_huffman.py\<close>, \<^verbatim>\<open>advanced_compression.py\<close> and
  \<^verbatim>\<open>huffman_compression.py\<close>). Every index read lies in \<open>0..<len(flips)\<close>, so nothing
  raises.
\<close>

definition to_transitions :: "string \<Rightarrow> int list" where
  "to_transitions flips =
     map (\<lambda>i. if flips ! i \<noteq> flips ! (i - 1) then 1 else 0) [1..<length flips]"

text \<open>
  \<^verbatim>\<open>compression_analysis.py\<close>: \<^verbatim>\<open>to_bits\<close> maps \<^verbatim>\<open>'H'\<close> to 1 and every other character
  to 0; \<^verbatim>\<open>get_transitions\<close> is the comprehension above on a list of integers.
\<close>

definition to_bits :: "string \<Rightarrow> int list" where
  "to_bits flips = map (\<lambda>f. if f = CHR ''H'' then 1 else 0) flips"

definition get_transitions :: "int list \<Rightarrow> int list" where
  "get_transitions bits =
     map (\<lambda>i. if bits ! i \<noteq> bits ! (i - 1) then 1 else 0) [1..<length bits]"

subsection \<open>Run-length segmentation\<close>

text \<open>
  \<^verbatim>\<open>get_runs\<close> (\<^verbatim>\<open>runlength_huffman.py\<close>, \<^verbatim>\<open>advanced_compression.py\<close>) and
  \<^verbatim>\<open>run_length_encode\<close> (\<^verbatim>\<open>compression_analysis.py\<close>) are the same loop:
  \<^verbatim>\<open>
    if not stream: return []
    runs = []; current_val = stream[0]; current_len = 1
    for bit in stream[1:]:
        if bit == current_val: current_len += 1
        else:
            runs.append((current_val, current_len)); current_val = bit; current_len = 1
    runs.append((current_val, current_len))
    return runs\<close>
  \<open>runs_loop\<close> is the \<^verbatim>\<open>for\<close> loop with its three variables passed along; its first
  equation is the \<^verbatim>\<open>append\<close> after the loop.
\<close>

type_synonym 'a run = "'a \<times> nat"

fun runs_loop :: "'a list \<Rightarrow> 'a run list \<Rightarrow> 'a \<Rightarrow> nat \<Rightarrow> 'a run list" where
  "runs_loop [] runs current_val current_len = runs @ [(current_val, current_len)]"
| "runs_loop (b # rest) runs current_val current_len =
     (if b = current_val then runs_loop rest runs current_val (current_len + 1)
      else runs_loop rest (runs @ [(current_val, current_len)]) b 1)"

definition get_runs :: "'a list \<Rightarrow> 'a run list" where
  "get_runs stream = (case stream of [] \<Rightarrow> [] | v # rest \<Rightarrow> runs_loop rest [] v 1)"

definition run_length_encode :: "int list \<Rightarrow> int run list" where
  "run_length_encode bits = (case bits of [] \<Rightarrow> [] | v # rest \<Rightarrow> runs_loop rest [] v 1)"

text \<open>The stream a run sequence stands for: each value repeated its length, in order.\<close>

definition expand_runs :: "'a run list \<Rightarrow> 'a list" where
  "expand_runs runs = concat (map (\<lambda>(v, n). replicate n v) runs)"

section \<open>Properties of the transition encoder\<close>

lemma length_to_transitions: "length (to_transitions flips) = length flips - 1"
  by (simp add: to_transitions_def)

lemma nth_to_transitions:
  assumes "1 \<le> i" and "i < length flips"
  shows "to_transitions flips ! (i - 1) = (if flips ! i \<noteq> flips ! (i - 1) then 1 else 0)"
proof -
  from assms have "i - 1 < length [1..<length flips]" by simp
  moreover from assms have "[1..<length flips] ! (i - 1) = i" by simp
  ultimately show ?thesis
    unfolding to_transitions_def by (simp del: upt_Suc)
qed

text \<open>
  Claim C9. For a bitstream of length \<open>n\<close> the transition encoder returns a stream of
  length \<open>n - 1\<close> (empty when \<open>n \<le> 1\<close>; the function has no failing branch), every
  element is 0 or 1, and the element derived for position \<open>i\<close> of the bitstream
  (\<open>1 \<le> i < n\<close>; it is stored at offset \<open>i - 1\<close> of the result) is 1 iff element \<open>i\<close>
  of the bitstream differs from element \<open>i - 1\<close>.
\<close>

theorem to_transitions_spec:
  "length (to_transitions flips) = length flips - 1
   \<and> (length flips \<le> 1 \<longrightarrow> to_transitions flips = [])
   \<and> set (to_transitions flips) \<subseteq> {0, 1}
   \<and> (\<forall>i. 1 \<le> i \<and> i < length flips \<longrightarrow>
         (to_transitions flips ! (i - 1) = 1) = (flips ! i \<noteq> flips ! (i - 1)))"
proof (intro conjI allI impI)
  show "length (to_transitions flips) = length flips - 1"
    by (rule length_to_transitions)
  show "to_transitions flips = []" if "length flips \<le> 1"
    using that by (simp add: to_transitions_def)
  show "set (to_transitions flips) \<subseteq> {0, 1}"
    by (auto simp: to_transitions_def)
  show "(to_transitions flips ! (i - 1) = 1) = (flips ! i \<noteq> flips ! (i - 1))"
    if "1 \<le> i \<and> i < length flips" for i
    using that nth_to_transitions [of i flips] by auto
qed

theorem to_transitions_spec_witness:
  "to_transitions ''HTTH'' = [1, 0, 1]
   \<and> length (to_transitions ''HTTH'') = length ''HTTH'' - 1
   \<and> (1 \<le> (2::nat) \<and> 2 < length ''HTTH'')
   \<and> (to_transitions ''HTTH'' ! (2 - 1) = 1) = (''HTTH'' ! 2 \<noteq> ''HTTH'' ! (2 - 1))
   \<and> (length ''H'' \<le> 1 \<and> to_transitions ''H'' = [])"
proof -
  have v: "to_transitions ''HTTH'' = [1, 0, 1]"
    by (simp add: to_transitions_def upt_rec)
  have i: "1 \<le> (2::nat) \<and> 2 < length ''HTTH''" by simp
  from to_transitions_spec [of "''HTTH''"] i
  have "(to_transitions ''HTTH'' ! (2 - 1) = 1) = (''HTTH'' ! 2 \<noteq> ''HTTH'' ! (2 - 1))"
    by blast
  moreover from to_transitions_spec [of "''H''"] have "to_transitions ''H'' = []" by simp
  ultimately show ?thesis using v i by simp
qed

section \<open>Properties of the run-length segmenter\<close>

lemma expand_runs_append [simp]: "expand_runs (xs @ ys) = expand_runs xs @ expand_runs ys"
  by (simp add: expand_runs_def)

lemma expand_runs_single [simp]: "expand_runs [(v, n)] = replicate n v"
  by (simp add: expand_runs_def)

lemma expand_runs_Nil [simp]: "expand_runs [] = []"
  by (simp add: expand_runs_def)

lemma runs_loop_expand:
  "expand_runs (runs_loop xs runs v n) = expand_runs runs @ replicate n v @ xs"
proof (induction xs arbitrary: runs v n)
  case Nil
  show ?case by simp
next
  case (Cons x xs)
  show ?case
  proof (cases "x = v")
    case True
    have "replicate (n + 1) v @ xs = replicate n v @ v # xs"
      by (simp add: replicate_append_same)
    with True Cons.IH [of runs v "n + 1"] show ?thesis by simp
  next
    case False
    with Cons.IH [of "runs @ [(v, n)]" x 1] show ?thesis by simp
  qed
qed

lemma runs_loop_sum:
  "sum_list (map snd (runs_loop xs runs v n)) = sum_list (map snd runs) + n + length xs"
  by (induction xs arbitrary: runs v n) simp_all

lemma runs_loop_positive:
  "\<forall>r \<in> set runs. 1 \<le> snd r \<Longrightarrow> 1 \<le> n \<Longrightarrow> \<forall>r \<in> set (runs_loop xs runs v n). 1 \<le> snd r"
proof (induction xs arbitrary: runs v n)
  case Nil
  then show ?case by simp
next
  case (Cons x xs)
  show ?case
  proof (cases "x = v")
    case True
    from Cons.prems have "\<forall>r \<in> set (runs_loop xs runs v (n + 1)). 1 \<le> snd r"
      by (intro Cons.IH) simp_all
    with True show ?thesis by simp
  next
    case False
    from Cons.prems have "\<forall>r \<in> set (runs_loop xs (runs @ [(v, n)]) x 1). 1 \<le> snd r"
      by (intro Cons.IH) simp_all
    with False show ?thesis by simp
  qed
qed

lemma runs_loop_distinct_adj:
  "distinct_adj (map fst (runs @ [(v, n)])) \<Longrightarrow> distinct_adj (map fst (runs_loop xs runs v n))"
proof (induction xs arbitrary: runs v n)
  case Nil
  then show ?case by simp
next
  case (Cons x xs)
  show ?case
  proof (cases "x = v")
    case True
    from Cons.prems have "distinct_adj (map fst (runs @ [(v, n + 1)]))" by simp
    from Cons.IH [OF this] True show ?thesis by simp
  next
    case False
    with Cons.prems have "distinct_adj (map fst ((runs @ [(v, n)]) @ [(x, 1)]))"
      by (simp add: distinct_adj_append_iff)
    from Cons.IH [OF this] False show ?thesis by simp
  qed
qed

text \<open>
  Claim C3. For every stream \<open>T\<close>, \<^verbatim>\<open>get_runs\<close> returns runs such that no two adjacent
  runs share the same value, every run length is at least 1, the run lengths sum to
  \<open>len(T)\<close>, and repeating each run's value its length, in order, gives back \<open>T\<close>.
\<close>

theorem get_runs_spec:
  "distinct_adj (map fst (get_runs T))
   \<and> (\<forall>r \<in> set (get_runs T). 1 \<le> snd r)
   \<and> sum_list (map snd (get_runs T)) = length T
   \<and> expand_runs (get_runs T) = T"
proof (cases T)
  case Nil
  then show ?thesis by (simp add: get_runs_def)
next
  case (Cons v rest)
  have "distinct_adj (map fst (runs_loop rest [] v 1))"
    by (rule runs_loop_distinct_adj) simp
  moreover have "\<forall>r \<in> set (runs_loop rest [] v 1). 1 \<le> snd r"
    by (rule runs_loop_positive) simp_all
  moreover have "sum_list (map snd (runs_loop rest [] v 1)) = length (v # rest)"
    by (simp add: runs_loop_sum)
  moreover have "expand_runs (runs_loop rest [] v 1) = v # rest"
    by (simp add: runs_loop_expand)
  ultimately show ?thesis using Cons by (simp add: get_runs_def)
qed

theorem get_runs_spec_witness:
  "get_runs [1, 1, 0, 1 :: int] = [(1, 2), (0, 1), (1, 1)]
   \<and> (1 :: int, 2 :: nat) \<in> set (get_runs [1, 1, 0, 1 :: int])
   \<and> 1 \<le> snd (1 :: int, 2 :: nat)
   \<and> distinct_adj (map fst (get_runs [1, 1, 0, 1 :: int]))
   \<and> sum_list (map snd (get_runs [1, 1, 0, 1 :: int])) = 4
   \<and> expand_runs (get_runs [1, 1, 0, 1 :: int]) = [1, 1, 0, 1]"
proof -
  have v: "get_runs [1, 1, 0, 1 :: int] = [(1, 2), (0, 1), (1, 1)]"
    by (simp add: get_runs_def)
  then have m: "(1 :: int, 2 :: nat) \<in> set (get_runs [1, 1, 0, 1 :: int])" by simp
  note s = get_runs_spec [of "[1, 1, 0, 1 :: int]"]
  from s m have "1 \<le> snd (1 :: int, 2 :: nat)" by blast
  moreover from s have "distinct_adj (map fst (get_runs [1, 1, 0, 1 :: int]))" by blast
  moreover from s have "sum_list (map snd (get_runs [1, 1, 0, 1 :: int])) = 4" by simp
  moreover from s have "expand_runs (get_runs [1, 1, 0, 1 :: int]) = [1, 1, 0, 1]" by blast
  ultimately show ?thesis using v m by blast
qed

subsection \<open>Prediction-based encoding (compression\_analysis.py)\<close>

text \<open>
  \<^verbatim>\<open>prediction_encode\<close> reads \<^verbatim>\<open>bits[0]\<close> first, which raises \<^verbatim>\<open>IndexError\<close> on an
  empty input; then
  \<^verbatim>\<open>errors = [0 if t == 1 else 1 for t in transitions]\<close>
  and the statistics, with \<^verbatim>\<open>alternation_rate = num_correct / len(errors) if errors else 0\<close>.
\<close>

record pred_stats =
  first_bit :: int
  num_transitions :: nat
  num_alternations :: nat
  num_same :: nat
  alternation_rate :: real

definition prediction_encode :: "string \<Rightarrow> error + (int list \<times> pred_stats)" where
  "prediction_encode flips =
     (let bits = to_bits flips in
      if bits = [] then Inl IndexError
      else
        let transitions = get_transitions bits;
            errors = map (\<lambda>t. if t = 1 then 0 else 1) transitions;
            num_correct = count_list errors 0;
            num_wrong = count_list errors 1
        in Inr (errors,
             \<lparr>first_bit = bits ! 0,
              num_transitions = length transitions,
              num_alternations = num_correct,
              num_same = num_wrong,
              alternation_rate =
                (if errors \<noteq> [] then real num_correct / real (length errors) else 0)\<rparr>))"

subsection \<open>Unary and Golomb codes for run lengths (compression\_analysis.py)\<close>

text \<open>
  \<^verbatim>\<open>format(r, f'0{b}b')\<close> writes \<open>r\<close> in binary, at least one digit, and pads it with
  zeros on the left to width \<open>b\<close>; a longer number is not cut, and a negative one gets
  its sign in front of the padding. \<open>bin_digits\<close> is the digit string of a natural
  number.
\<close>

fun bin_digits :: "nat \<Rightarrow> string" where
  "bin_digits n =
     (if n < 2 then [if n = 0 then CHR ''0'' else CHR ''1'']
      else bin_digits (n div 2) @ [if n mod 2 = 0 then CHR ''0'' else CHR ''1''])"

declare bin_digits.simps [simp del]

definition format_bin :: "nat \<Rightarrow> int \<Rightarrow> string" where
  "format_bin width r =
     (let ds = bin_digits (nat \<bar>r\<bar>) in
      if r < 0 then CHR ''-'' # replicate (width - 1 - length ds) (CHR ''0'') @ ds
      else replicate (width - length ds) (CHR ''0'') @ ds)"

definition encode_run_length_unary :: "int \<Rightarrow> string" where
  "encode_run_length_unary len = replicate (nat len) (CHR ''1'') @ ''0''"

text \<open>
  \<^verbatim>\<open>
    q = (length - 1) // m
    r = (length - 1) % m
    b = int(math.ceil(math.log2(m))) if m > 1 else 1
    unary = '1' * q + '0'
    binary = format(r, f'0{b}b')
    return unary + binary\<close>
  Python's \<^verbatim>\<open>//\<close> and \<^verbatim>\<open>%\<close> round towards minus infinity, as \<open>div\<close> and \<open>mod\<close> on
  \<open>int\<close> do, and raise \<^verbatim>\<open>ZeroDivisionError\<close> for \<open>m = 0\<close>; \<^verbatim>\<open>'1' * q\<close> is empty for
  \<open>q \<le> 0\<close>.

  \<^verbatim>\<open>math.log2\<close> is a function of the C library on double-precision numbers, not the
  logarithm of the reals: for \<open>m = 2^49 + 1\<close> it returns \<open>49.0\<close>, where \<open>log2 m > 49\<close>. It
  is therefore a parameter of the model, \<open>log2\<close>, of which nothing is assumed: \<open>log2 m\<close>
  is the double that \<^verbatim>\<open>math.log2(m)\<close> returns, as the real number it denotes.
  \<^verbatim>\<open>int(math.ceil(x))\<close> is the exact ceiling of that number. A negative width makes
  the format specification invalid (\<^verbatim>\<open>ValueError\<close>).
\<close>

definition encode_run_length_golomb :: "(int \<Rightarrow> real) \<Rightarrow> int \<Rightarrow> int \<Rightarrow> error + string" where
  "encode_run_length_golomb log2 len m =
     (if m = 0 then Inl ZeroDivisionError
      else
        let q = (len - 1) div m;
            r = (len - 1) mod m;
            b = (if m > 1 then \<lceil>log2 m\<rceil> else 1);
            unary = replicate (nat q) (CHR ''1'') @ ''0''
        in if b < 0 then Inl ValueError
           else Inr (unary @ format_bin (nat b) r))"

text \<open>The number a string of binary digits denotes, most significant digit first.\<close>

definition bits_value :: "string \<Rightarrow> nat" where
  "bits_value bs = foldl (\<lambda>acc c. 2 * acc + (if c = CHR ''1'' then 1 else 0)) 0 bs"

section \<open>The prediction errors are the complemented transitions\<close>

lemma get_transitions_binary: "set (get_transitions bits) \<subseteq> {0, 1}"
  by (auto simp: get_transitions_def)

lemma runs_loop_map:
  assumes "inj_on f (set (v # xs))"
  shows "runs_loop (map f xs) (map (map_prod f id) runs) (f v) n
           = map (map_prod f id) (runs_loop xs runs v n)"
  using assms
proof (induction xs arbitrary: runs v n)
  case Nil
  show ?case by simp
next
  case (Cons x xs)
  from Cons.prems have eq: "f x = f v \<longleftrightarrow> x = v"
    by (auto simp: inj_on_def)
  show ?case
  proof (cases "x = v")
    case True
    from Cons.prems True have "inj_on f (set (v # xs))"
      by (auto simp: inj_on_def)
    from Cons.IH [OF this, of runs "n + 1"] True show ?thesis by simp
  next
    case False
    from Cons.prems have "inj_on f (set (x # xs))"
      by (auto simp: inj_on_def)
    from Cons.IH [OF this, of "runs @ [(v, n)]" 1] False eq show ?thesis by simp
  qed
qed

lemma run_length_encode_complement:
  assumes "set T \<subseteq> {0, 1}"
  shows "run_length_encode (map (\<lambda>t. 1 - t) T)
           = map (\<lambda>(v, n). (1 - v, n)) (run_length_encode T)"
proof (cases T)
  case Nil
  then show ?thesis by (simp add: run_length_encode_def)
next
  case (Cons v rest)
  have "inj_on (\<lambda>t::int. 1 - t) (set (v # rest))"
    by (auto simp: inj_on_def)
  from runs_loop_map [OF this, of "[]" 1]
  have "runs_loop (map (\<lambda>t. 1 - t) rest) [] (1 - v) 1
          = map (map_prod (\<lambda>t. 1 - t) id) (runs_loop rest [] v 1)"
    by simp
  moreover have "map_prod (\<lambda>t::int. 1 - t) (id :: nat \<Rightarrow> nat) = (\<lambda>(v, n). (1 - v, n))"
    by (auto simp: fun_eq_iff)
  ultimately show ?thesis using Cons by (simp add: run_length_encode_def)
qed

text \<open>
  Claim C10. For every input of length at least 2, \<^verbatim>\<open>prediction_encode\<close> returns an
  error stream that is the pointwise complement (\<open>1 - t\<close> on the values 0 and 1) of the
  transition stream \<^verbatim>\<open>get_transitions(to_bits(flips))\<close>, and the run-length encodings
  of the two streams have the same run lengths at the same places, with every run
  value complemented.
\<close>

theorem prediction_errors_complement:
  assumes "2 \<le> length flips"
  shows "(\<exists>stats. prediction_encode flips
            = Inr (map (\<lambda>t. 1 - t) (get_transitions (to_bits flips)), stats))
    \<and> set (get_transitions (to_bits flips)) \<subseteq> {0, 1}
    \<and> length (get_transitions (to_bits flips)) = length flips - 1
    \<and> run_length_encode (map (\<lambda>t. 1 - t) (get_transitions (to_bits flips)))
         = map (\<lambda>(v, n). (1 - v, n)) (run_length_encode (get_transitions (to_bits flips)))"
proof -
  let ?T = "get_transitions (to_bits flips)"
  have bin: "set ?T \<subseteq> {0, 1}" by (rule get_transitions_binary)
  then have "map (\<lambda>t. if t = 1 then 0 else 1) ?T = map (\<lambda>t. 1 - t) ?T"
    by (intro map_cong) auto
  moreover from assms have "to_bits flips \<noteq> []"
    by (auto simp: to_bits_def)
  ultimately have enc: "\<exists>stats. prediction_encode flips = Inr (map (\<lambda>t. 1 - t) ?T, stats)"
    by (simp add: prediction_encode_def Let_def)
  have len: "length ?T = length flips - 1"
    by (simp add: get_transitions_def to_bits_def)
  from bin have "run_length_encode (map (\<lambda>t. 1 - t) ?T)
           = map (\<lambda>(v, n). (1 - v, n)) (run_length_encode ?T)"
    by (rule run_length_encode_complement)
  with enc bin len show ?thesis by blast
qed

theorem prediction_errors_complement_witness:
  "2 \<le> length ''HTTH''
   \<and> get_transitions (to_bits ''HTTH'') = [1, 0, 1]
   \<and> (\<exists>stats. prediction_encode ''HTTH'' = Inr ([0, 1, 0], stats))
   \<and> run_length_encode [0, 1, 0] = [(0, 1), (1, 1), (0, 1)]
   \<and> run_length_encode [1, 0, 1] = [(1, 1), (0, 1), (1, 1)]"
proof -
  have len: "2 \<le> length ''HTTH''" by simp
  have t: "get_transitions (to_bits ''HTTH'') = [1, 0, 1]"
    by (simp add: get_transitions_def to_bits_def upt_rec)
  have r: "run_length_encode [1, 0, 1] = [(1, 1), (0, 1), (1, 1)]"
    by (simp add: run_length_encode_def)
  from prediction_errors_complement [OF len] t
  have "\<exists>stats. prediction_encode ''HTTH'' = Inr ([0, 1, 0], stats)" by simp
  moreover from prediction_errors_complement [OF len] t r
  have "run_length_encode [0, 1, 0] = [(0, 1), (1, 1), (0, 1)]" by simp
  ultimately show ?thesis using len t r by blast
qed

section \<open>The Golomb encoder\<close>

text \<open>
  The exact ceiling of the real logarithm is a width that is large enough for every
  remainder: where \<^verbatim>\<open>math.log2\<close> rounds to a double with the same ceiling, the
  width that the code computes is large enough, too.
\<close>

lemma le_pow_ceil_log2:
  assumes "2 \<le> m"
  shows "m \<le> 2 ^ nat \<lceil>log 2 (real_of_int m)\<rceil>"
proof -
  let ?c = "\<lceil>log 2 (real_of_int m)\<rceil>"
  from assms have pos: "0 < real_of_int m" by simp
  from assms have "0 \<le> log 2 (real_of_int m)" by simp
  then have c0: "0 \<le> ?c" by simp
  from pos have "real_of_int m = 2 powr log 2 (real_of_int m)" by simp
  also have "\<dots> \<le> 2 powr real_of_int ?c"
    by (rule powr_mono) simp_all
  also from c0 have "real_of_int ?c = real (nat ?c)" by simp
  also have "2 powr real (nat ?c) = 2 ^ nat ?c"
    by (simp add: powr_realpow)
  finally have "real_of_int m \<le> 2 ^ nat ?c" .
  then show ?thesis by (simp only: of_int_le_numeral_power_cancel_iff)
qed

lemma foldl_bin_digits:
  "foldl (\<lambda>acc c. 2 * acc + (if c = CHR ''1'' then 1 else 0)) a (bin_digits n)
     = a * 2 ^ length (bin_digits n) + n"
proof (induction n arbitrary: a rule: bin_digits.induct)
  case (1 n)
  show ?case
  proof (cases "n < 2")
    case True
    then show ?thesis by (subst (1 2) bin_digits.simps) auto
  next
    case False
    have split: "2 * (n div 2) + (if n mod 2 = 0 then 0 else 1) = n" by presburger
    from False 1 [of a] split show ?thesis
      by (subst (1 2) bin_digits.simps) (auto simp: algebra_simps)
  qed
qed

lemma bits_value_bin_digits: "bits_value (bin_digits n) = n"
  by (simp add: bits_value_def foldl_bin_digits)

lemma length_bin_digits: "n < 2 ^ b \<Longrightarrow> 1 \<le> b \<Longrightarrow> length (bin_digits n) \<le> b"
proof (induction n arbitrary: b rule: bin_digits.induct)
  case (1 n)
  show ?case
  proof (cases "n < 2")
    case True
    with "1.prems" show ?thesis by (subst bin_digits.simps) simp
  next
    case False
    from False "1.prems" have b2: "2 \<le> b"
      by (cases b; cases "b - 1") auto
    then obtain b' where b': "b = Suc b'" "1 \<le> b'" by (cases b) auto
    from "1.prems" b' have "n div 2 < 2 ^ b'" by auto
    from "1.IH" [OF False this b'(2)] False b' show ?thesis
      by (subst bin_digits.simps) simp
  qed
qed

lemma set_bin_digits: "set (bin_digits n) \<subseteq> {CHR ''0'', CHR ''1''}"
proof (induction n rule: bin_digits.induct)
  case (1 n)
  then show ?case by (subst bin_digits.simps) auto
qed

lemma bits_value_pad: "bits_value (replicate k (CHR ''0'') @ bs) = bits_value bs"
  by (induction k) (simp_all add: bits_value_def)

text \<open>A non-negative remainder below \<open>2 ^ b\<close> fills a field of exactly \<open>b\<close> binary digits.\<close>

lemma format_bin_field:
  assumes "0 \<le> r" and "r < 2 ^ b" and "1 \<le> b"
  shows "length (format_bin b r) = b"
    and "set (format_bin b r) \<subseteq> {CHR ''0'', CHR ''1''}"
    and "bits_value (format_bin b r) = nat r"
proof -
  from assms have "nat r < 2 ^ b"
    by (simp add: nat_less_iff)
  then have le: "length (bin_digits (nat r)) \<le> b"
    using assms(3) by (rule length_bin_digits)
  from assms(1) have fmt: "format_bin b r
      = replicate (b - length (bin_digits (nat r))) (CHR ''0'') @ bin_digits (nat r)"
    by (simp add: format_bin_def Let_def)
  from le show "length (format_bin b r) = b" by (simp add: fmt)
  from set_bin_digits [of "nat r"] show "set (format_bin b r) \<subseteq> {CHR ''0'', CHR ''1''}"
    by (auto simp: fmt)
  show "bits_value (format_bin b r) = nat r"
    by (simp add: fmt bits_value_pad bits_value_bin_digits)
qed

text \<open>
  Claim C5, as stated, fails for the divisor \<open>m = 1\<close>: the code takes the width of the
  remainder field from its guard \<^verbatim>\<open>if m > 1 else 1\<close>, not from \<open>\<lceil>log2 1\<rceil> = 0\<close>, so the
  run length 1 is encoded as \<^verbatim>\<open>00\<close>, two characters where the claim says
  \<open>q + 1 + \<lceil>log2 m\<rceil> = 1\<close>. The branch does not call \<^verbatim>\<open>math.log2\<close>, so this holds
  whatever that function returns.
\<close>

theorem golomb_length_counterexample:
  "\<not> (\<exists>log2 code. encode_run_length_golomb log2 1 1 = Inr code
        \<and> int (length code) = (1 - 1) div 1 + 1 + \<lceil>log 2 (real_of_int 1)\<rceil>)"
proof -
  have "encode_run_length_golomb log2 1 1 = Inr ''00''" for log2
    by (simp add: encode_run_length_golomb_def format_bin_def bin_digits.simps)
  then show ?thesis by simp
qed

text \<open>
  Claim C5, amended. For every run length \<open>\<ell> \<ge> 1\<close> and every divisor \<open>m \<ge> 1\<close>, let \<open>b\<close>
  be the width the code computes: 1 for \<open>m = 1\<close>, and the ceiling of the double that
  \<^verbatim>\<open>math.log2(m)\<close> returns for \<open>m \<ge> 2\<close>. Whenever \<open>m \<le> 2 ^ b\<close> (as it is when that
  ceiling is the exact \<open>\<lceil>log2 m\<rceil>\<close>), the encoder returns
  \<open>q = (\<ell> - 1) div m\<close> ones, then a single zero, then \<open>r = (\<ell> - 1) mod m\<close> in a field of
  exactly \<open>b\<close> binary digits, so the codeword has length \<open>q + 1 + b\<close>. Nothing is said
  of a divisor such as \<open>2^49 + 1\<close>, for which \<^verbatim>\<open>math.log2\<close> gives a width below
  \<open>\<lceil>log2 m\<rceil>\<close>.
\<close>

theorem golomb_codeword:
  assumes "1 \<le> len" and "1 \<le> m"
    and "m \<le> 2 ^ nat (if m = 1 then 1 else \<lceil>log2 m\<rceil>)"
  shows "\<exists>field.
           encode_run_length_golomb log2 len m
             = Inr (replicate (nat ((len - 1) div m)) (CHR ''1'') @ ''0'' @ field)
           \<and> int (length field) = (if m = 1 then 1 else \<lceil>log2 m\<rceil>)
           \<and> set field \<subseteq> {CHR ''0'', CHR ''1''}
           \<and> bits_value field = nat ((len - 1) mod m)
           \<and> int (length (replicate (nat ((len - 1) div m)) (CHR ''1'') @ ''0'' @ field))
               = (len - 1) div m + 1 + (if m = 1 then 1 else \<lceil>log2 m\<rceil>)"
proof -
  define b where "b = (if m > 1 then \<lceil>log2 m\<rceil> else 1)"
  define r where "r = (len - 1) mod m"
  define q where "q = (len - 1) div m"
  from assms(2) have b_eq: "(if m = 1 then 1 else \<lceil>log2 m\<rceil>) = b"
    by (auto simp: b_def)
  from assms(3) have wide: "m \<le> 2 ^ nat b"
    by (simp only: b_eq)
  have b1: "1 \<le> b"
  proof (rule ccontr)
    assume "\<not> 1 \<le> b"
    then have "nat b = 0" by simp
    with wide have "m \<le> 1" by simp
    with assms(2) have "b = 1" by (simp add: b_def)
    with \<open>\<not> 1 \<le> b\<close> show False by simp
  qed
  from assms(2) have r0: "0 \<le> r" and rm: "r < m"
    by (simp_all add: r_def)
  from assms have q0: "0 \<le> q"
    by (simp add: q_def pos_imp_zdiv_nonneg_iff)
  from rm wide have rb: "r < 2 ^ nat b" by linarith
  from b1 have nb: "1 \<le> nat b" by simp
  note f = format_bin_field [OF r0 rb nb]
  from assms(2) b1 have
    "encode_run_length_golomb log2 len m
       = Inr (replicate (nat q) (CHR ''1'') @ ''0'' @ format_bin (nat b) r)"
    by (simp add: encode_run_length_golomb_def Let_def b_def r_def q_def)
  moreover from f(1) b1 have "int (length (format_bin (nat b) r)) = b" by simp
  moreover from f(1) b1 q0
  have "int (length (replicate (nat q) (CHR ''1'') @ ''0'' @ format_bin (nat b) r)) = q + 1 + b"
    by simp
  ultimately show ?thesis
    using f(2,3) unfolding b_eq r_def [symmetric] q_def [symmetric] by blast
qed

theorem golomb_codeword_witness:
  "(1::int) \<le> 5 \<and> (1::int) \<le> 2
   \<and> (2::int) \<le> 2 ^ nat (if (2::int) = 1 then 1 else \<lceil>log 2 (real_of_int 2)\<rceil>)
   \<and> encode_run_length_golomb (\<lambda>m. log 2 (real_of_int m)) 5 2 = Inr ''1100''
   \<and> (\<exists>field. encode_run_length_golomb (\<lambda>m. log 2 (real_of_int m)) 5 2
                  = Inr (''11'' @ ''0'' @ field)
         \<and> length field = 1 \<and> bits_value field = 0)"
proof -
  let ?log2 = "\<lambda>m::int. log 2 (real_of_int m)"
  have h: "(1::int) \<le> 5" "(1::int) \<le> 2"
    "(2::int) \<le> 2 ^ nat (if (2::int) = 1 then 1 else \<lceil>?log2 2\<rceil>)"
    by simp_all
  have v: "encode_run_length_golomb ?log2 5 2 = Inr ''1100''"
    by (simp add: encode_run_length_golomb_def format_bin_def bin_digits.simps eval_nat_numeral)
  have q: "nat ((5 - 1) div 2) = (2::nat)" and r: "nat ((5 - 1) mod 2) = (0::nat)"
    by simp_all
  have "replicate 2 (CHR ''1'') = ''11''" by (simp add: eval_nat_numeral)
  with golomb_codeword [of 5 2 ?log2, OF h] q r
  have "\<exists>field. encode_run_length_golomb ?log2 5 2 = Inr (''11'' @ ''0'' @ field)
         \<and> length field = 1 \<and> bits_value field = 0"
    by auto
  with v h show ?thesis by simp
qed

subsection \<open>Huffman trees and the priority queue\<close>

text \<open>
  \<^verbatim>\<open>class HuffmanNode\<close> (\<^verbatim>\<open>Node\<close> in \<^verbatim>\<open>advanced_compression.py\<close>) has the fields
  \<^verbatim>\<open>symbol, freq, left, right\<close>. A node made from an entry of the frequency dictionary
  has a symbol and no children; a node made by the merge loop has \<^verbatim>\<open>symbol = None\<close> and
  both children. The code tells the two apart by \<^verbatim>\<open>node.symbol is not None\<close>, the
  datatype by its constructor. \<^verbatim>\<open>__lt__\<close> compares \<^verbatim>\<open>freq\<close> only.
\<close>

datatype 'a huffman_node =
    Leaf 'a int
  | Merged int "'a huffman_node" "'a huffman_node"

fun freq :: "'a huffman_node \<Rightarrow> int" where
  "freq (Leaf s f) = f"
| "freq (Merged f l r) = f"

definition node_lt :: "'a huffman_node \<Rightarrow> 'a huffman_node \<Rightarrow> bool" where
  "node_lt a b \<longleftrightarrow> freq a < freq b"

text \<open>
  The scripts keep the nodes in a list managed by Python's \<^verbatim>\<open>heapq\<close>. Its functions
  are embedded as the standard library defines them (\<^verbatim>\<open>Lib/heapq.py\<close>), because the
  order in which equal frequencies leave the queue, and so the shape of the tree, is
  decided there:
  \<^verbatim>\<open>
    def _siftdown(heap, startpos, pos):
        newitem = heap[pos]
        while pos > startpos:
            parentpos = (pos - 1) >> 1
            parent = heap[parentpos]
            if newitem < parent:
                heap[pos] = parent; pos = parentpos; continue
            break
        heap[pos] = newitem

    def _siftup(heap, pos):
        endpos = len(heap); startpos = pos; newitem = heap[pos]
        childpos = 2*pos + 1
        while childpos < endpos:
            rightpos = childpos + 1
            if rightpos < endpos and not heap[childpos] < heap[rightpos]:
                childpos = rightpos
            heap[pos] = heap[childpos]; pos = childpos; childpos = 2*pos + 1
        heap[pos] = newitem
        _siftdown(heap, startpos, pos)\<close>
  Every call made by \<^verbatim>\<open>heappush\<close>, \<^verbatim>\<open>heappop\<close> and \<^verbatim>\<open>heapify\<close> passes positions inside
  the list.
\<close>

function siftdown_loop ::
  "'a huffman_node list \<Rightarrow> nat \<Rightarrow> nat \<Rightarrow> 'a huffman_node \<Rightarrow> 'a huffman_node list" where
  "siftdown_loop heap startpos pos newitem =
     (if pos > startpos then
        (let parentpos = (pos - 1) div 2;
             parent = heap ! parentpos
         in if node_lt newitem parent
            then siftdown_loop (heap[pos := parent]) startpos parentpos newitem
            else heap[pos := newitem])
      else heap[pos := newitem])"
  by pat_completeness auto
termination
  by (relation "measure (\<lambda>(heap, startpos, pos, newitem). pos)") auto

declare siftdown_loop.simps [simp del]

definition siftdown :: "'a huffman_node list \<Rightarrow> nat \<Rightarrow> nat \<Rightarrow> 'a huffman_node list" where
  "siftdown heap startpos pos = siftdown_loop heap startpos pos (heap ! pos)"

function siftup_loop ::
  "'a huffman_node list \<Rightarrow> nat \<Rightarrow> nat \<Rightarrow> 'a huffman_node list \<times> nat" where
  "siftup_loop heap endpos pos =
     (let childpos = 2 * pos + 1 in
      if childpos < endpos then
        (let rightpos = childpos + 1;
             childpos = (if rightpos < endpos \<and> \<not> node_lt (heap ! childpos) (heap ! rightpos)
                         then rightpos else childpos)
         in siftup_loop (heap[pos := heap ! childpos]) endpos childpos)
      else (heap, pos))"
  by pat_completeness auto
termination
  by (relation "measure (\<lambda>(heap, endpos, pos). endpos - pos)") auto

declare siftup_loop.simps [simp del]

definition siftup :: "'a huffman_node list \<Rightarrow> nat \<Rightarrow> 'a huffman_node list" where
  "siftup heap pos =
     (let endpos = length heap;
          startpos = pos;
          newitem = heap ! pos;
          (heap', pos') = siftup_loop heap endpos pos
      in siftdown (heap'[pos' := newitem]) startpos pos')"

text \<open>
  \<^verbatim>\<open>
    def heappush(heap, item):
        heap.append(item)
        _siftdown(heap, 0, len(heap)-1)

    def heappop(heap):
        lastelt = heap.pop()    # raises IndexError if heap is empty
        if heap:
            returnitem = heap[0]; heap[0] = lastelt; _siftup(heap, 0)
            return returnitem
        return lastelt

    def heapify(x):
        n = len(x)
        for i in reversed(range(n//2)):
            _siftup(x, i)\<close>
  The list is mutated in place; the model returns the new list (with the popped item).
\<close>

definition heappush :: "'a huffman_node list \<Rightarrow> 'a huffman_node \<Rightarrow> 'a huffman_node list" where
  "heappush heap item = siftdown (heap @ [item]) 0 (length heap)"

definition heappop ::
  "'a huffman_node list \<Rightarrow> error + ('a huffman_node \<times> 'a huffman_node list)" where
  "heappop heap =
     (if heap = [] then Inl IndexError
      else
        let lastelt = last heap;
            heap' = butlast heap
        in if heap' \<noteq> [] then Inr (heap' ! 0, siftup (heap'[0 := lastelt]) 0)
           else Inr (lastelt, heap'))"

definition heapify :: "'a huffman_node list \<Rightarrow> 'a huffman_node list" where
  "heapify x = foldl siftup x (rev [0..<length x div 2])"

text \<open>The symbols at the leaves of a tree, left to right, and of a whole queue.\<close>

fun symbols_of :: "'a huffman_node \<Rightarrow> 'a list" where
  "symbols_of (Leaf s f) = [s]"
| "symbols_of (Merged f l r) = symbols_of l @ symbols_of r"

definition forest_syms :: "'a huffman_node list \<Rightarrow> 'a multiset" where
  "forest_syms heap = (\<Sum>t\<in>#mset heap. mset (symbols_of t))"

section \<open>The priority queue keeps its elements\<close>

lemma mset_update_move:
  assumes "p < length h" and "c < length h" and "p \<noteq> c"
  shows "mset (h[p := h ! c, c := x]) = mset (h[p := x])"
proof -
  let ?L = "h[p := x]"
  from assms have "mset (?L[c := ?L ! p, p := ?L ! c]) = mset ?L"
    by (intro mset_swap) simp_all
  moreover from assms have "?L[c := ?L ! p, p := ?L ! c] = h[p := h ! c, c := x]"
    by (simp add: list_update_swap [of p c])
  ultimately show ?thesis by simp
qed

lemma length_siftdown_loop [simp]: "length (siftdown_loop h s p x) = length h"
proof (induction h s p x rule: siftdown_loop.induct)
  case (1 heap startpos pos newitem)
  then show ?case
    by (subst siftdown_loop.simps) (simp add: Let_def)
qed

lemma mset_siftdown_loop:
  "p < length h \<Longrightarrow> mset (siftdown_loop h s p x) = mset (h[p := x])"
proof (induction h s p x rule: siftdown_loop.induct)
  case (1 heap startpos pos newitem)
  let ?pp = "(pos - 1) div 2"
  show ?case
  proof (cases "pos > startpos \<and> node_lt newitem (heap ! ?pp)")
    case True
    with "1.prems" have pp: "?pp < length heap" "pos \<noteq> ?pp" by auto
    from True pp "1.IH" [of ?pp "heap ! ?pp"]
    have "mset (siftdown_loop (heap[pos := heap ! ?pp]) startpos ?pp newitem)
            = mset (heap[pos := heap ! ?pp, ?pp := newitem])"
      by simp
    also from "1.prems" pp have "\<dots> = mset (heap[pos := newitem])"
      by (intro mset_update_move) simp_all
    finally show ?thesis
      using True by (subst siftdown_loop.simps) (simp add: Let_def)
  next
    case False
    then show ?thesis
      by (subst siftdown_loop.simps) (auto simp: Let_def)
  qed
qed

lemma mset_siftdown: "p < length h \<Longrightarrow> mset (siftdown h s p) = mset h"
  by (simp add: siftdown_def mset_siftdown_loop)

lemma length_siftdown [simp]: "length (siftdown h s p) = length h"
  by (simp add: siftdown_def)

lemma siftup_loop_props:
  assumes "siftup_loop h e p = (h', p')" and "p < length h" and "e \<le> length h"
  shows "length h' = length h \<and> p' < length h \<and> mset (h'[p' := x]) = mset (h[p := x])"
  using assms
proof (induction h e p arbitrary: h' p' rule: siftup_loop.induct)
  case (1 heap endpos pos)
  let ?k = "2 * pos + 1"
  let ?c = "if ?k + 1 < endpos \<and> \<not> node_lt (heap ! ?k) (heap ! (?k + 1)) then ?k + 1 else ?k"
  show ?case
  proof (cases "?k < endpos")
    case True
    with "1.prems" have c: "?c < length heap" "pos \<noteq> ?c" by auto
    from True have "siftup_loop heap endpos pos = siftup_loop (heap[pos := heap ! ?c]) endpos ?c"
      by (subst siftup_loop.simps) (simp add: Let_def)
    with "1.prems"(1)
    have rec: "siftup_loop (heap[pos := heap ! ?c]) endpos ?c = (h', p')"
      by simp
    from "1.IH" [OF refl True refl refl rec] c "1.prems"
    have ih: "length h' = length heap" "p' < length heap"
      "mset (h'[p' := x]) = mset (heap[pos := heap ! ?c, ?c := x])"
      by simp_all
    from "1.prems" c have "mset (heap[pos := heap ! ?c, ?c := x]) = mset (heap[pos := x])"
      by (intro mset_update_move) simp_all
    with ih show ?thesis by simp
  next
    case False
    with "1.prems" show ?thesis
      by (subst (asm) siftup_loop.simps) (simp add: Let_def)
  qed
qed

lemma siftup_props:
  assumes "p < length h"
  shows "length (siftup h p) = length h" and "mset (siftup h p) = mset h"
proof -
  obtain h' p' where l: "siftup_loop h (length h) p = (h', p')"
    by (cases "siftup_loop h (length h) p")
  from siftup_loop_props [OF l assms, of "h ! p"]
  have props: "length h' = length h" "p' < length h" "mset (h'[p' := h ! p]) = mset h"
    by simp_all
  have s: "siftup h p = siftdown (h'[p' := h ! p]) p p'"
    by (simp add: siftup_def l)
  from props show "length (siftup h p) = length h" by (simp add: s)
  from props show "mset (siftup h p) = mset h" by (simp add: s mset_siftdown)
qed

lemma foldl_siftup_props:
  "\<forall>i \<in> set is. i < length h \<Longrightarrow>
     length (foldl siftup h is) = length h \<and> mset (foldl siftup h is) = mset h"
proof (induction "is" arbitrary: h)
  case Nil
  show ?case by simp
next
  case (Cons i "is")
  from Cons.prems have i: "i < length h" by simp
  from Cons.prems siftup_props [OF i]
  have "\<forall>j \<in> set is. j < length (siftup h i)" by simp
  from Cons.IH [OF this] siftup_props [OF i] show ?case by simp
qed

lemma heapify_props: "length (heapify h) = length h" "mset (heapify h) = mset h"
proof -
  have "\<forall>i \<in> set (rev [0..<length h div 2]). i < length h" by auto
  from foldl_siftup_props [OF this]
  show "length (heapify h) = length h" "mset (heapify h) = mset h"
    by (simp_all add: heapify_def)
qed

lemma heappush_props:
  "length (heappush h x) = Suc (length h)" "mset (heappush h x) = add_mset x (mset h)"
  by (simp_all add: heappush_def mset_siftdown)

lemma heappop_props:
  assumes "h \<noteq> []"
  shows "\<exists>x rest. heappop h = Inr (x, rest) \<and> mset h = add_mset x (mset rest)"
proof (cases "butlast h = []")
  case True
  with assms have "h = [last h]"
    by (metis append_butlast_last_id append_Nil)
  then have "mset h = add_mset (last h) (mset (butlast h))"
    using True by (metis mset.simps(1) mset_single_iff_right add_mset_eq_single)
  with assms True show ?thesis by (simp add: heappop_def)
next
  case False
  let ?b = "butlast h"
  from False have pos: "0 < length ?b" by (metis length_greater_0_conv)
  from siftup_props(2) [of 0 "?b[0 := last h]"] pos
  have "mset (siftup (?b[0 := last h]) 0) = mset (?b[0 := last h])" by simp
  also from pos have "\<dots> = add_mset (last h) (mset ?b - {#?b ! 0#})"
    by (simp add: mset_update)
  finally have "add_mset (?b ! 0) (mset (siftup (?b[0 := last h]) 0))
                  = add_mset (last h) (mset ?b)"
    using pos by simp
  also from assms have "\<dots> = mset h"
    by (metis append_butlast_last_id mset.simps(2) mset_append union_mset_add_mset_right
        add.right_neutral mset.simps(1))
  finally show ?thesis using assms False by (simp add: heappop_def Let_def)
qed

subsection \<open>Building the tree and reading off the codes\<close>

lemma heappop_length: "heappop h = Inr (x, rest) \<Longrightarrow> length h = Suc (length rest)"
proof -
  assume pop: "heappop h = Inr (x, rest)"
  then have "h \<noteq> []" by (auto simp: heappop_def)
  from heappop_props [OF this] pop have "mset h = add_mset x (mset rest)" by auto
  then have "size (mset h) = size (add_mset x (mset rest))" by simp
  then show ?thesis by simp
qed

text \<open>
  The merge loop, the same in all three scripts:
  \<^verbatim>\<open>
    while len(heap) > 1:
        left = heapq.heappop(heap)
        right = heapq.heappop(heap)
        merged = HuffmanNode(None, left.freq + right.freq)
        merged.left = left
        merged.right = right
        heapq.heappush(heap, merged)\<close>
\<close>

function huffman_loop :: "'a huffman_node list \<Rightarrow> error + 'a huffman_node list" where
  "huffman_loop heap =
     (if length heap > 1 then
        (case heappop heap of
           Inl e \<Rightarrow> Inl e
         | Inr (left, heap1) \<Rightarrow>
             (case heappop heap1 of
                Inl e \<Rightarrow> Inl e
              | Inr (right, heap2) \<Rightarrow>
                  huffman_loop (heappush heap2 (Merged (freq left + freq right) left right))))
      else Inr heap)"
  by pat_completeness auto
termination
proof (relation "measure length")
  show "wf (measure length)" by simp
next
  fix heap :: "'a huffman_node list" and x left heap1 y right heap2
  assume "heappop heap = Inr x" and "(left, heap1) = x"
    and "heappop heap1 = Inr y" and "(right, heap2) = y"
  then have "length heap = Suc (length heap1)" and "length heap1 = Suc (length heap2)"
    by (auto dest: heappop_length)
  then show "(heappush heap2 (Merged (freq left + freq right) left right), heap)
               \<in> measure length"
    by (simp add: heappush_props)
qed

declare huffman_loop.simps [simp del]

text \<open>
  \<^verbatim>\<open>huffman_compression.py\<close>:
  \<^verbatim>\<open>
    def build_huffman_tree(freq_dict):
        heap = [HuffmanNode(sym, freq) for sym, freq in freq_dict.items()]
        heapq.heapify(heap)
        while len(heap) > 1: ...
        return heap[0] if heap else None\<close>
  The frequency dictionary is the list of its items in insertion order; its keys are
  distinct, which the theorems below assume of the list.
\<close>

definition build_huffman_tree :: "('a \<times> int) list \<Rightarrow> error + 'a huffman_node option" where
  "build_huffman_tree freq_dict =
     (let heap = heapify (map (\<lambda>(sym, f). Leaf sym f) freq_dict) in
      case huffman_loop heap of
        Inl e \<Rightarrow> Inl e
      | Inr heap \<Rightarrow> Inr (if heap \<noteq> [] then Some (heap ! 0) else None))"

text \<open>
  \<^verbatim>\<open>get_huffman_codes\<close> (\<^verbatim>\<open>huffman_compression.py\<close>), \<^verbatim>\<open>extract_codes\<close>
  (\<^verbatim>\<open>runlength_huffman.py\<close>) and \<^verbatim>\<open>extract\<close> (\<^verbatim>\<open>advanced_compression.py\<close>) are one
  function:
  \<^verbatim>\<open>
    def extract_codes(node, prefix="", codes=None):
        if codes is None: codes = {}
        if node.symbol is not None:
            codes[node.symbol] = prefix if prefix else "0"
        else:
            if node.left: extract_codes(node.left, prefix + "0", codes)
            if node.right: extract_codes(node.right, prefix + "1", codes)
        return codes\<close>
  The dictionary \<^verbatim>\<open>codes\<close> is shared by all recursive calls and is passed through
  here. A merged node always has both children, and a node object is always true.
\<close>

fun extract_codes :: "'a huffman_node \<Rightarrow> string \<Rightarrow> ('a \<rightharpoonup> string) \<Rightarrow> ('a \<rightharpoonup> string)" where
  "extract_codes (Leaf s f) pre codes = codes(s \<mapsto> (if pre \<noteq> [] then pre else ''0''))"
| "extract_codes (Merged f l r) pre codes =
     extract_codes r (pre @ ''1'') (extract_codes l (pre @ ''0'') codes)"

definition get_huffman_codes :: "'a huffman_node \<Rightarrow> ('a \<rightharpoonup> string)" where
  "get_huffman_codes node = extract_codes node [] Map.empty"

text \<open>
  \<^verbatim>\<open>runlength_huffman.py\<close> and \<^verbatim>\<open>advanced_compression.py\<close>:
  \<^verbatim>\<open>
    def build_huffman_codes(freq_dict):
        if len(freq_dict) == 0: return {}
        if len(freq_dict) == 1: return {list(freq_dict.keys())[0]: '0'}
        heap = [HuffmanNode(sym, freq) for sym, freq in freq_dict.items()]
        heapq.heapify(heap)
        while len(heap) > 1: ...
        return extract_codes(heap[0])\<close>
\<close>

definition build_huffman_codes :: "('a \<times> int) list \<Rightarrow> error + ('a \<rightharpoonup> string)" where
  "build_huffman_codes freq_dict =
     (if length freq_dict = 0 then Inr Map.empty
      else if length freq_dict = 1 then Inr [fst (freq_dict ! 0) \<mapsto> ''0'']
      else
        let heap = heapify (map (\<lambda>(sym, f). Leaf sym f) freq_dict) in
        case huffman_loop heap of
          Inl e \<Rightarrow> Inl e
        | Inr heap \<Rightarrow>
            if heap = [] then Inl IndexError else Inr (extract_codes (heap ! 0) [] Map.empty))"

text \<open>
  \<^verbatim>\<open>def huffman_encode(symbols, codes): return ''.join(codes[s] for s in symbols)\<close>;
  a symbol that is not a key raises \<^verbatim>\<open>KeyError\<close>.
\<close>

fun huffman_encode :: "'a list \<Rightarrow> ('a \<rightharpoonup> string) \<Rightarrow> error + string" where
  "huffman_encode [] codes = Inr []"
| "huffman_encode (s # symbols) codes =
     (case codes s of
        None \<Rightarrow> Inl KeyError
      | Some c \<Rightarrow>
          (case huffman_encode symbols codes of
             Inl e \<Rightarrow> Inl e
           | Inr rest \<Rightarrow> Inr (c @ rest)))"

section \<open>The merge loop ends with one tree over the same symbols\<close>

lemma forest_syms_mset: "mset h = mset h' \<Longrightarrow> forest_syms h = forest_syms h'"
  by (simp add: forest_syms_def)

lemma forest_syms_single [simp]: "forest_syms [t] = mset (symbols_of t)"
  by (simp add: forest_syms_def)

lemma forest_syms_heappop:
  assumes "heappop h = Inr (x, rest)"
  shows "forest_syms h = mset (symbols_of x) + forest_syms rest"
proof -
  from assms have "h \<noteq> []" by (auto simp: heappop_def)
  from heappop_props [OF this] assms have "mset h = add_mset x (mset rest)" by auto
  then show ?thesis by (simp add: forest_syms_def)
qed

lemma forest_syms_heappush:
  "forest_syms (heappush h x) = mset (symbols_of x) + forest_syms h"
  by (simp add: forest_syms_def heappush_props)

lemma forest_syms_leaves:
  "forest_syms (map (\<lambda>(sym, f). Leaf sym f) freq_dict) = mset (map fst freq_dict)"
  by (induction freq_dict) (auto simp: forest_syms_def)

lemma huffman_loop_result:
  "heap \<noteq> [] \<Longrightarrow> \<exists>t. huffman_loop heap = Inr [t] \<and> mset (symbols_of t) = forest_syms heap"
proof (induction heap rule: huffman_loop.induct)
  case (1 heap)
  show ?case
  proof (cases "length heap > 1")
    case True
    from heappop_props [OF "1.prems"] obtain left heap1
      where p1: "heappop heap = Inr (left, heap1)" by blast
    from heappop_length [OF p1] True have "heap1 \<noteq> []" by auto
    from heappop_props [OF this] obtain right heap2
      where p2: "heappop heap1 = Inr (right, heap2)" by blast
    let ?m = "Merged (freq left + freq right) left right"
    have "heappush heap2 ?m \<noteq> []"
      using heappush_props(1) [of heap2 ?m] by auto
    from "1.IH" [OF True p1 refl p2 refl this] obtain t
      where t: "huffman_loop (heappush heap2 ?m) = Inr [t]"
        and s: "mset (symbols_of t) = forest_syms (heappush heap2 ?m)" by blast
    from True p1 p2 t have "huffman_loop heap = Inr [t]"
      by (subst huffman_loop.simps) simp
    moreover from s have "mset (symbols_of t) = forest_syms heap"
      by (simp add: forest_syms_heappush forest_syms_heappop [OF p1]
          forest_syms_heappop [OF p2])
    ultimately show ?thesis by blast
  next
    case False
    with "1.prems" obtain t where "heap = [t]"
      by (cases heap) auto
    then show ?thesis by (subst huffman_loop.simps) simp
  qed
qed

lemma huffman_tree_of_dict:
  assumes "freq_dict \<noteq> []" and "distinct (map fst freq_dict)"
  shows "\<exists>t. huffman_loop (heapify (map (\<lambda>(sym, f). Leaf sym f) freq_dict)) = Inr [t]
           \<and> distinct (symbols_of t) \<and> set (symbols_of t) = fst ` set freq_dict"
proof -
  let ?leaves = "map (\<lambda>(sym, f). Leaf sym f) freq_dict"
  from assms(1) heapify_props(1) [of ?leaves] have "heapify ?leaves \<noteq> []" by auto
  from huffman_loop_result [OF this] obtain t
    where t: "huffman_loop (heapify ?leaves) = Inr [t]"
      and "mset (symbols_of t) = forest_syms (heapify ?leaves)" by blast
  then have m: "mset (symbols_of t) = mset (map fst freq_dict)"
    by (simp add: forest_syms_mset [OF heapify_props(2)] forest_syms_leaves)
  from m assms(2) have "distinct (symbols_of t)"
    by (metis mset_eq_imp_distinct_iff)
  moreover from m have "set (symbols_of t) = fst ` set freq_dict"
    by (metis mset_eq_setD set_map)
  ultimately show ?thesis using t by blast
qed

section \<open>The extracted code table\<close>

lemma extract_codes_other:
  "s \<notin> set (symbols_of t) \<Longrightarrow> extract_codes t pre codes s = codes s"
  by (induction t arbitrary: pre codes) simp_all

lemma dom_extract_codes: "dom (extract_codes t pre codes) = dom codes \<union> set (symbols_of t)"
  by (induction t arbitrary: pre codes) auto

lemma extract_codes_extends:
  assumes "s \<in> set (symbols_of t)" and "distinct (symbols_of t)" and "pre \<noteq> []"
  shows "\<exists>q. extract_codes t pre codes s = Some (pre @ q)"
  using assms
proof (induction t arbitrary: pre codes)
  case (Leaf s' f)
  then show ?case by simp
next
  case (Merged f l r)
  show ?case
  proof (cases "s \<in> set (symbols_of l)")
    case True
    with Merged.prems have "s \<notin> set (symbols_of r)" by auto
    then have "extract_codes (Merged f l r) pre codes s = extract_codes l (pre @ ''0'') codes s"
      by (simp add: extract_codes_other)
    moreover from Merged.IH(1) [OF True, of "pre @ ''0''" codes] Merged.prems
    obtain q where "extract_codes l (pre @ ''0'') codes s = Some ((pre @ ''0'') @ q)" by auto
    ultimately show ?thesis by simp
  next
    case False
    with Merged.prems have r: "s \<in> set (symbols_of r)" by auto
    from Merged.IH(2) [OF r, of "pre @ ''1''" "extract_codes l (pre @ ''0'') codes"] Merged.prems
    obtain q where "extract_codes (Merged f l r) pre codes s = Some ((pre @ ''1'') @ q)" by auto
    then show ?thesis by simp
  qed
qed

lemma extract_codes_prefix_free:
  assumes "distinct (symbols_of t)"
    and "s \<in> set (symbols_of t)" and "u \<in> set (symbols_of t)" and "s \<noteq> u"
    and "extract_codes t pre codes s = Some a" and "extract_codes t pre codes u = Some b"
  shows "\<not> prefix a b"
  using assms
proof (induction t arbitrary: pre codes)
  case (Leaf s' f)
  then show ?case by simp
next
  case (Merged f l r)
  let ?cl = "extract_codes l (pre @ ''0'') codes"
  from Merged.prems(1) have dl: "distinct (symbols_of l)" and dr: "distinct (symbols_of r)"
    and disj: "set (symbols_of l) \<inter> set (symbols_of r) = {}" by auto
  have left: "extract_codes (Merged f l r) pre codes x = ?cl x"
    if "x \<in> set (symbols_of l)" for x
    using that disj by (simp add: extract_codes_other disjoint_iff)
  have right: "extract_codes (Merged f l r) pre codes x = extract_codes r (pre @ ''1'') ?cl x"
    for x by simp
  consider (ll) "s \<in> set (symbols_of l)" "u \<in> set (symbols_of l)"
    | (rr) "s \<in> set (symbols_of r)" "u \<in> set (symbols_of r)"
    | (lr) "s \<in> set (symbols_of l)" "u \<in> set (symbols_of r)"
    | (rl) "s \<in> set (symbols_of r)" "u \<in> set (symbols_of l)"
    using Merged.prems(2,3) by auto
  then show ?case
  proof cases
    case ll
    with Merged.prems(5,6) have "?cl s = Some a" "?cl u = Some b"
      by (simp_all only: left)
    from Merged.IH(1) [OF dl ll \<open>s \<noteq> u\<close> this] show ?thesis .
  next
    case rr
    with Merged.prems(5,6)
    have "extract_codes r (pre @ ''1'') ?cl s = Some a"
      "extract_codes r (pre @ ''1'') ?cl u = Some b"
      by (simp_all only: right)
    from Merged.IH(2) [OF dr rr \<open>s \<noteq> u\<close> this] show ?thesis .
  next
    case lr
    from extract_codes_extends [OF lr(1) dl, of "pre @ ''0''" codes] left [OF lr(1)]
      Merged.prems(5)
    obtain q1 where a: "a = pre @ ''0'' @ q1" by auto
    from extract_codes_extends [OF lr(2) dr, of "pre @ ''1''" ?cl] Merged.prems(6)
    obtain q2 where b: "b = pre @ ''1'' @ q2" by auto
    show ?thesis by (simp add: a b)
  next
    case rl
    from extract_codes_extends [OF rl(2) dl, of "pre @ ''0''" codes] left [OF rl(2)]
      Merged.prems(6)
    obtain q1 where b: "b = pre @ ''0'' @ q1" by auto
    from extract_codes_extends [OF rl(1) dr, of "pre @ ''1''" ?cl] Merged.prems(5)
    obtain q2 where a: "a = pre @ ''1'' @ q2" by auto
    show ?thesis by (simp add: a b)
  qed
qed

text \<open>
  Claim C2. For every non-empty frequency table (a dictionary: its keys are distinct),
  \<^verbatim>\<open>build_huffman_codes\<close> returns a code table; the table has a codeword for exactly the
  symbols of the frequency table, and no codeword is a prefix of the codeword of
  another symbol.
\<close>

theorem build_huffman_codes_prefix_free:
  assumes "freq_dict \<noteq> []" and "distinct (map fst freq_dict)"
  shows "\<exists>codes. build_huffman_codes freq_dict = Inr codes
           \<and> dom codes = fst ` set freq_dict
           \<and> (\<forall>s u a b. s \<noteq> u \<and> codes s = Some a \<and> codes u = Some b \<longrightarrow> \<not> prefix a b)"
proof (cases "length freq_dict = 1")
  case True
  then obtain kv where kv: "freq_dict = [kv]"
    by (cases freq_dict) auto
  then have "build_huffman_codes freq_dict = Inr [fst kv \<mapsto> ''0'']"
    by (simp add: build_huffman_codes_def)
  moreover have "dom [fst kv \<mapsto> ''0''] = fst ` set freq_dict"
    by (simp add: kv)
  moreover have "\<forall>s u a b. s \<noteq> u \<and> [fst kv \<mapsto> ''0''] s = Some a
      \<and> [fst kv \<mapsto> ''0''] u = Some b \<longrightarrow> \<not> prefix a b"
    by (auto split: if_splits)
  ultimately show ?thesis by blast
next
  case False
  from huffman_tree_of_dict [OF assms] obtain t
    where loop: "huffman_loop (heapify (map (\<lambda>(sym, f). Leaf sym f) freq_dict)) = Inr [t]"
      and dist: "distinct (symbols_of t)"
      and syms: "set (symbols_of t) = fst ` set freq_dict" by blast
  let ?codes = "extract_codes t [] Map.empty"
  from False assms(1) loop have "build_huffman_codes freq_dict = Inr ?codes"
    by (simp add: build_huffman_codes_def)
  moreover from syms have "dom ?codes = fst ` set freq_dict"
    by (simp add: dom_extract_codes)
  moreover have "\<not> prefix a b"
    if "s \<noteq> u \<and> ?codes s = Some a \<and> ?codes u = Some b" for s u a b
  proof -
    from that have "s \<in> dom ?codes" and "u \<in> dom ?codes" by auto
    then have su: "s \<in> set (symbols_of t)" "u \<in> set (symbols_of t)"
      by (simp_all add: dom_extract_codes)
    from that have "s \<noteq> u" and "?codes s = Some a" and "?codes u = Some b"
      by simp_all
    with dist su show ?thesis
      by (rule extract_codes_prefix_free)
  qed
  ultimately show ?thesis by blast
qed

theorem build_huffman_codes_prefix_free_witness:
  "[(1::nat, 3::int), (2, 2), (3, 1)] \<noteq> []
   \<and> distinct (map fst [(1::nat, 3::int), (2, 2), (3, 1)])
   \<and> (\<exists>codes. build_huffman_codes [(1::nat, 3::int), (2, 2), (3, 1)] = Inr codes
         \<and> dom codes = {1, 2, 3})"
proof -
  have ne: "[(1::nat, 3::int), (2, 2), (3, 1)] \<noteq> []" by simp
  have d: "distinct (map fst [(1::nat, 3::int), (2, 2), (3, 1)])" by simp
  from build_huffman_codes_prefix_free [OF ne d]
  have "\<exists>codes. build_huffman_codes [(1::nat, 3::int), (2, 2), (3, 1)] = Inr codes
         \<and> dom codes = {1, 2, 3}"
    by auto
  with ne d show ?thesis by blast
qed

text \<open>
  Claim C8, as stated, fails: on a frequency table with no symbols
  \<^verbatim>\<open>build_huffman_codes\<close> does not fail; its first guard returns the empty code table.
\<close>

theorem build_huffman_codes_empty_counterexample:
  "\<not> (\<exists>e. build_huffman_codes ([] :: (nat \<times> int) list) = Inl e)"
  by (simp add: build_huffman_codes_def)

text \<open>
  Claim C8, amended. Building a code from a frequency table with zero distinct symbols
  raises no error: \<^verbatim>\<open>build_huffman_codes\<close> returns the empty code table and
  \<^verbatim>\<open>build_huffman_tree\<close> returns \<^verbatim>\<open>None\<close>.
\<close>

theorem build_huffman_empty:
  "build_huffman_codes ([] :: ('a \<times> int) list) = Inr Map.empty
   \<and> build_huffman_tree ([] :: ('a \<times> int) list) = Inr None"
  by (simp add: build_huffman_codes_def build_huffman_tree_def heapify_def huffman_loop.simps)

subsection \<open>Decoding\<close>

text \<open>Putting a decoded symbol in front of the rest of the output, if there is one.\<close>

definition emit :: "'a \<Rightarrow> error + 'a list \<Rightarrow> error + 'a list" where
  "emit s res = (case res of Inl e \<Rightarrow> Inl e | Inr out \<Rightarrow> Inr (s # out))"

text \<open>
  Modelled from the spec: the repository has no decoder (\<^verbatim>\<open>huffman_compression.py\<close>
  only builds the tree, extracts the codes and encodes). Section 4.6 of the specification
  describes it: "Decode: walks the tree bit by bit, emitting a symbol and resetting to
  the root whenever a leaf is reached; fails with MalformedStreamError on trailing bits
  that do not resolve to a complete leaf path." \<open>decode_walk rt cur mid bits\<close> is that
  walk: \<open>rt\<close> is the root, \<open>cur\<close> is the node reached so far and \<open>mid\<close> says that some
  bits have been read since the last symbol. A bit \<^verbatim>\<open>0\<close> goes to the left child and a
  bit \<^verbatim>\<open>1\<close> to the right child, as the code extraction labels the edges. For the
  degenerate tree of one leaf, whose symbol has the code \<^verbatim>\<open>0\<close> (section 4.6,
  "Degenerate case m = 1"), every bit \<^verbatim>\<open>0\<close> is one occurrence of that symbol.
\<close>

fun decode_walk :: "'a huffman_node \<Rightarrow> 'a huffman_node \<Rightarrow> bool \<Rightarrow> string \<Rightarrow> error + 'a list" where
  "decode_walk rt cur mid [] = (if mid then Inl MalformedStreamError else Inr [])"
| "decode_walk rt (Leaf s f) mid (b # bits) =
     (if b = CHR ''0'' then emit s (decode_walk rt rt False bits)
      else Inl MalformedStreamError)"
| "decode_walk rt (Merged f l r) mid (b # bits) =
     (if b = CHR ''0'' \<or> b = CHR ''1'' then
        (case (if b = CHR ''0'' then l else r) of
           Leaf s f' \<Rightarrow> emit s (decode_walk rt rt False bits)
         | Merged f' l' r' \<Rightarrow> decode_walk rt (if b = CHR ''0'' then l else r) True bits)
      else Inl MalformedStreamError)"

definition huffman_decode :: "'a huffman_node \<Rightarrow> string \<Rightarrow> error + 'a list" where
  "huffman_decode rt bits = decode_walk rt rt False bits"

section \<open>Round trip through the code of a Huffman tree\<close>

text \<open>What the walk does once it stands on the node \<open>t\<close> with \<open>bits\<close> left to read.\<close>

definition arrive :: "'a huffman_node \<Rightarrow> 'a huffman_node \<Rightarrow> string \<Rightarrow> error + 'a list" where
  "arrive rt t bits =
     (case t of
        Leaf s f \<Rightarrow> emit s (decode_walk rt rt False bits)
      | Merged f l r \<Rightarrow> decode_walk rt t True bits)"

lemma decode_walk_step:
  "decode_walk rt (Merged f l r) mid (CHR ''0'' # bits) = arrive rt l bits"
  "decode_walk rt (Merged f l r) mid (CHR ''1'' # bits) = arrive rt r bits"
  by (simp_all add: arrive_def split: huffman_node.splits)

lemma arrive_code:
  assumes "s \<in> set (symbols_of t)" and "distinct (symbols_of t)" and "pre \<noteq> []"
  shows "\<exists>q. extract_codes t pre codes s = Some (pre @ q)
           \<and> (\<forall>rest. arrive rt t (q @ rest) = emit s (decode_walk rt rt False rest))"
  using assms
proof (induction t arbitrary: pre codes)
  case (Leaf s' f)
  then show ?case by (simp add: arrive_def)
next
  case (Merged f l r)
  show ?case
  proof (cases "s \<in> set (symbols_of l)")
    case True
    with Merged.prems have "s \<notin> set (symbols_of r)" by auto
    then have e: "extract_codes (Merged f l r) pre codes s = extract_codes l (pre @ ''0'') codes s"
      by (simp add: extract_codes_other)
    from Merged.IH(1) [OF True, of "pre @ ''0''" codes] Merged.prems
    obtain q where q: "extract_codes l (pre @ ''0'') codes s = Some ((pre @ ''0'') @ q)"
      and w: "\<And>rest. arrive rt l (q @ rest) = emit s (decode_walk rt rt False rest)"
      by auto
    from e q have "extract_codes (Merged f l r) pre codes s = Some (pre @ (CHR ''0'' # q))"
      by simp
    moreover have "arrive rt (Merged f l r) ((CHR ''0'' # q) @ rest)
        = emit s (decode_walk rt rt False rest)" for rest
      by (simp add: arrive_def [of rt "Merged f l r"] decode_walk_step w
          del: decode_walk.simps)
    ultimately show ?thesis by blast
  next
    case False
    with Merged.prems have r: "s \<in> set (symbols_of r)" by auto
    from Merged.IH(2) [OF r, of "pre @ ''1''" "extract_codes l (pre @ ''0'') codes"] Merged.prems
    obtain q where q: "extract_codes (Merged f l r) pre codes s = Some ((pre @ ''1'') @ q)"
      and w: "\<And>rest. arrive rt r (q @ rest) = emit s (decode_walk rt rt False rest)"
      by auto
    from q have "extract_codes (Merged f l r) pre codes s = Some (pre @ (CHR ''1'' # q))"
      by simp
    moreover have "arrive rt (Merged f l r) ((CHR ''1'' # q) @ rest)
        = emit s (decode_walk rt rt False rest)" for rest
      by (simp add: arrive_def [of rt "Merged f l r"] decode_walk_step w
          del: decode_walk.simps)
    ultimately show ?thesis by blast
  qed
qed

text \<open>One codeword at the front of the input decodes to its symbol, then the walk restarts.\<close>

lemma decode_one_symbol:
  assumes "s \<in> set (symbols_of t)" and "distinct (symbols_of t)"
  shows "\<exists>c. get_huffman_codes t s = Some c
           \<and> (\<forall>rest. huffman_decode t (c @ rest) = emit s (huffman_decode t rest))"
proof (cases t)
  case (Leaf s' f)
  with assms show ?thesis
    by (simp add: get_huffman_codes_def huffman_decode_def)
next
  case (Merged f l r)
  let ?cl = "extract_codes l ''0'' Map.empty"
  show ?thesis
  proof (cases "s \<in> set (symbols_of l)")
    case True
    with assms Merged have "s \<notin> set (symbols_of r)" and dl: "distinct (symbols_of l)" by auto
    then have e: "get_huffman_codes t s = ?cl s"
      by (simp add: get_huffman_codes_def Merged extract_codes_other)
    from arrive_code [OF True dl, of "''0''" Map.empty t]
    obtain q where q: "?cl s = Some (''0'' @ q)"
      and w: "\<And>rest. arrive t l (q @ rest) = emit s (decode_walk t t False rest)"
      by auto
    have "huffman_decode t ((''0'' @ q) @ rest) = emit s (huffman_decode t rest)" for rest
      unfolding huffman_decode_def
      by (subst (2) Merged) (simp add: decode_walk_step w del: decode_walk.simps)
    with e q show ?thesis by auto
  next
    case False
    with assms Merged have r: "s \<in> set (symbols_of r)" and dr: "distinct (symbols_of r)" by auto
    from arrive_code [OF r dr, of "''1''" ?cl t]
    obtain q where q: "extract_codes r ''1'' ?cl s = Some (''1'' @ q)"
      and w: "\<And>rest. arrive t r (q @ rest) = emit s (decode_walk t t False rest)"
      by auto
    from q have e: "get_huffman_codes t s = Some (''1'' @ q)"
      by (simp add: get_huffman_codes_def Merged)
    have "huffman_decode t ((''1'' @ q) @ rest) = emit s (huffman_decode t rest)" for rest
      unfolding huffman_decode_def
      by (subst (2) Merged) (simp add: decode_walk_step w del: decode_walk.simps)
    with e show ?thesis by auto
  qed
qed

lemma huffman_round_trip_tree:
  assumes "distinct (symbols_of t)" and "set S \<subseteq> set (symbols_of t)"
  shows "\<exists>bits. huffman_encode S (get_huffman_codes t) = Inr bits
           \<and> huffman_decode t bits = Inr S"
  using assms(2)
proof (induction S)
  case Nil
  show ?case by (simp add: huffman_decode_def)
next
  case (Cons s S)
  then obtain bits where enc: "huffman_encode S (get_huffman_codes t) = Inr bits"
    and dec: "huffman_decode t bits = Inr S" by auto
  from Cons.prems have "s \<in> set (symbols_of t)" by simp
  from decode_one_symbol [OF this assms(1)] obtain c
    where c: "get_huffman_codes t s = Some c"
      and w: "\<And>rest. huffman_decode t (c @ rest) = emit s (huffman_decode t rest)" by blast
  from c enc have "huffman_encode (s # S) (get_huffman_codes t) = Inr (c @ bits)"
    by simp
  moreover from w [of bits] dec have "huffman_decode t (c @ bits) = Inr (s # S)"
    by (simp add: emit_def)
  ultimately show ?case by blast
qed

text \<open>
  Claim C1. For every frequency model with at least one distinct symbol (a dictionary:
  its keys are distinct), \<^verbatim>\<open>build_huffman_tree\<close> returns a tree, and for every symbol
  sequence \<open>S\<close> over the model's alphabet, encoding \<open>S\<close> with the codes extracted from that
  tree succeeds and decoding the result gives back \<open>S\<close>.
\<close>

theorem huffman_round_trip:
  assumes "freq_dict \<noteq> []" and "distinct (map fst freq_dict)"
  shows "\<exists>tree. build_huffman_tree freq_dict = Inr (Some tree)
           \<and> (\<forall>S. set S \<subseteq> fst ` set freq_dict \<longrightarrow>
                 (\<exists>bits. huffman_encode S (get_huffman_codes tree) = Inr bits
                    \<and> huffman_decode tree bits = Inr S))"
proof -
  from huffman_tree_of_dict [OF assms] obtain t
    where loop: "huffman_loop (heapify (map (\<lambda>(sym, f). Leaf sym f) freq_dict)) = Inr [t]"
      and dist: "distinct (symbols_of t)"
      and syms: "set (symbols_of t) = fst ` set freq_dict" by blast
  from loop have "build_huffman_tree freq_dict = Inr (Some t)"
    by (simp add: build_huffman_tree_def)
  moreover have "\<exists>bits. huffman_encode S (get_huffman_codes t) = Inr bits
      \<and> huffman_decode t bits = Inr S" if "set S \<subseteq> fst ` set freq_dict" for S
    using dist that unfolding syms [symmetric] by (rule huffman_round_trip_tree)
  ultimately show ?thesis by blast
qed

theorem huffman_round_trip_witness:
  "[(''0'', 3::int), (''1'', 2)] \<noteq> []
   \<and> distinct (map fst [(''0'', 3::int), (''1'', 2)])
   \<and> set [''1'', ''0'', ''1''] \<subseteq> fst ` set [(''0'', 3::int), (''1'', 2)]
   \<and> (\<exists>tree bits. build_huffman_tree [(''0'', 3::int), (''1'', 2)] = Inr (Some tree)
         \<and> huffman_encode [''1'', ''0'', ''1''] (get_huffman_codes tree) = Inr bits
         \<and> huffman_decode tree bits = Inr [''1'', ''0'', ''1''])"
proof -
  have ne: "[(''0'', 3::int), (''1'', 2)] \<noteq> []" by simp
  have d: "distinct (map fst [(''0'', 3::int), (''1'', 2)])" by simp
  have sub: "set [''1'', ''0'', ''1''] \<subseteq> fst ` set [(''0'', 3::int), (''1'', 2)]" by simp
  from huffman_round_trip [OF ne d] sub
  have "\<exists>tree bits. build_huffman_tree [(''0'', 3::int), (''1'', 2)] = Inr (Some tree)
         \<and> huffman_encode [''1'', ''0'', ''1''] (get_huffman_codes tree) = Inr bits
         \<and> huffman_decode tree bits = Inr [''1'', ''0'', ''1'']"
    by blast
  with ne d sub show ?thesis by blast
qed

subsection \<open>Frequency tables\<close>

text \<open>
  \<^verbatim>\<open>collections.Counter(xs)\<close> counts the elements of \<open>xs\<close>; as a dictionary it keeps its
  keys in the order of their first occurrence, which is the order \<^verbatim>\<open>freq_dict.items()\<close>
  hands the entries to the heap.
\<close>

fun counter_add :: "'a \<Rightarrow> ('a \<times> int) list \<Rightarrow> ('a \<times> int) list" where
  "counter_add x [] = [(x, 1)]"
| "counter_add x ((k, c) # rest) =
     (if k = x then (k, c + 1) # rest else (k, c) # counter_add x rest)"

definition Counter :: "'a list \<Rightarrow> ('a \<times> int) list" where
  "Counter xs = foldl (\<lambda>d x. counter_add x d) [] xs"

subsection \<open>Per-run Huffman analysis (runlength\_huffman.py)\<close>

text \<open>
  The loop \<^verbatim>\<open>for x in xs: bits += len(codes[x])\<close>; a missing key raises \<^verbatim>\<open>KeyError\<close>.
\<close>

fun add_code_bits :: "('a \<rightharpoonup> string) \<Rightarrow> 'a list \<Rightarrow> nat \<Rightarrow> error + nat" where
  "add_code_bits codes [] bits = Inr bits"
| "add_code_bits codes (x # xs) bits =
     (case codes x of
        None \<Rightarrow> Inl KeyError
      | Some c \<Rightarrow> add_code_bits codes xs (bits + length c))"

text \<open>The dictionary \<^verbatim>\<open>analyze_compression\<close> returns.\<close>

record compression_result =
  res_original :: nat
  res_encoded :: nat
  res_ratio :: real
  res_savings :: real
  res_theoretical_min :: real
  res_alt_rate :: real
  res_entropy :: real
  res_runs :: "int run list"
  res_run_codes :: "nat \<rightharpoonup> string"

text \<open>
  \<^verbatim>\<open>analyze_compression(flips)\<close>, without its printing. The statements that can raise
  are kept in the order of the source:
  \<^verbatim>\<open>
    n = len(flips); transitions = to_transitions(flips); t_len = len(transitions)
    ones = sum(transitions); zeros = t_len - ones
    alt_rate = ones / t_len                          # ZeroDivisionError if t_len == 0
    if 0 < alt_rate < 1:
        entropy = -alt_rate * math.log2(alt_rate) - (1-alt_rate) * math.log2(1-alt_rate)
    else: entropy = 0
    theoretical_min = 1 + entropy * t_len
    runs = get_runs(transitions)
    all_run_lengths = [length for _, length in runs]
    run_freq = Counter(all_run_lengths)
    run_codes = build_huffman_codes(run_freq)
    encoded_bits = 1 + 1
    for _, length in runs: encoded_bits += len(run_codes[length])
    original_bits = n
    compression_ratio = encoded_bits / original_bits
    savings = (1 - compression_ratio) * 100
    if savings > 0:
        efficiency = savings / ((1 - theoretical_min/original_bits)*100) * 100\<close>
  Python's floats are modelled by the reals. After the first division \<open>n \<ge> 2\<close>, so the
  divisions by \<open>n\<close> cannot fail; the last one divides by zero when
  \<open>theoretical_min = original_bits\<close>. The module's docstring speaks of separate codes
  for the runs of 1s and the runs of 0s; the function builds one table from all run
  lengths, and that is what is embedded.
\<close>

definition analyze_compression :: "string \<Rightarrow> error + compression_result" where
  "analyze_compression flips =
     (let n = length flips;
          transitions = to_transitions flips;
          t_len = length transitions;
          ones = sum_list transitions
      in if t_len = 0 then Inl ZeroDivisionError
         else
           let alt_rate = real_of_int ones / real t_len;
               entropy =
                 (if 0 < alt_rate \<and> alt_rate < 1
                  then - alt_rate * log 2 alt_rate - (1 - alt_rate) * log 2 (1 - alt_rate)
                  else 0);
               theoretical_min = 1 + entropy * real t_len;
               runs = get_runs transitions;
               all_run_lengths = map snd runs;
               run_freq = Counter all_run_lengths
           in case build_huffman_codes run_freq of
                Inl e \<Rightarrow> Inl e
              | Inr run_codes \<Rightarrow>
                  (case add_code_bits run_codes all_run_lengths (1 + 1) of
                     Inl e \<Rightarrow> Inl e
                   | Inr encoded_bits \<Rightarrow>
                       let original_bits = n;
                           compression_ratio = real encoded_bits / real original_bits;
                           savings = (1 - compression_ratio) * 100
                       in if savings > 0 \<and> (1 - theoretical_min / real original_bits) * 100 = 0
                          then Inl ZeroDivisionError
                          else Inr \<lparr>res_original = original_bits,
                                    res_encoded = encoded_bits,
                                    res_ratio = compression_ratio,
                                    res_savings = savings,
                                    res_theoretical_min = theoretical_min,
                                    res_alt_rate = alt_rate,
                                    res_entropy = entropy,
                                    res_runs = runs,
                                    res_run_codes = run_codes\<rparr>))"

section \<open>The two concrete scenarios\<close>

lemma to_transitions_HTHT: "to_transitions ''HTHT'' = [1, 1, 1]"
  by (simp add: to_transitions_def upt_rec)

lemma to_transitions_HHHH: "to_transitions ''HHHH'' = [0, 0, 0]"
  by (simp add: to_transitions_def upt_rec)

lemma get_runs_111: "get_runs [1, 1, 1 :: int] = [(1, 3)]"
  by (simp add: get_runs_def numeral_3_eq_3)

lemma get_runs_000: "get_runs [0, 0, 0 :: int] = [(0, 3)]"
  by (simp add: get_runs_def numeral_3_eq_3)

lemma single_run_codes: "build_huffman_codes (Counter [3::nat]) = Inr [3 \<mapsto> ''0'']"
  by (simp add: build_huffman_codes_def Counter_def)

text \<open>
  Claim C6. On \<^verbatim>\<open>HTHT\<close> the pipeline yields the transition stream \<open>[1,1,1]\<close>, the single
  run \<open>(1, 3)\<close>, the code table that gives the run length 3 the code \<^verbatim>\<open>0\<close>, and 3 bits
  in total (1 + 1 + 1), so the ratio is 0.75 and the savings are 25 percent; on \<^verbatim>\<open>HHHH\<close>
  (transition stream \<open>[0,0,0]\<close>, the single run \<open>(0, 3)\<close>) the bit counts, the ratio and
  the savings are the same.
\<close>

theorem scenarios_HTHT_HHHH:
  "to_transitions ''HTHT'' = [1, 1, 1]
   \<and> to_transitions ''HHHH'' = [0, 0, 0]
   \<and> (\<exists>a b. analyze_compression ''HTHT'' = Inr a \<and> analyze_compression ''HHHH'' = Inr b
         \<and> res_runs a = [(1, 3)] \<and> res_runs b = [(0, 3)]
         \<and> res_run_codes a = [3 \<mapsto> ''0''] \<and> res_run_codes b = [3 \<mapsto> ''0'']
         \<and> res_original a = 4 \<and> res_original b = 4
         \<and> res_encoded a = 1 + 1 + 1 \<and> res_encoded b = res_encoded a
         \<and> res_ratio a = 0.75 \<and> res_ratio b = res_ratio a
         \<and> res_savings a = 25 \<and> res_savings b = res_savings a)"
proof -
  have a: "analyze_compression ''HTHT'' =
      Inr \<lparr>res_original = 4, res_encoded = 3, res_ratio = 3 / 4, res_savings = 25,
           res_theoretical_min = 1, res_alt_rate = 1, res_entropy = 0,
           res_runs = [(1, 3)], res_run_codes = [3 \<mapsto> ''0'']\<rparr>"
    by (simp add: analyze_compression_def Let_def to_transitions_HTHT get_runs_111
        single_run_codes)
  have b: "analyze_compression ''HHHH'' =
      Inr \<lparr>res_original = 4, res_encoded = 3, res_ratio = 3 / 4, res_savings = 25,
           res_theoretical_min = 1, res_alt_rate = 0, res_entropy = 0,
           res_runs = [(0, 3)], res_run_codes = [3 \<mapsto> ''0'']\<rparr>"
    by (simp add: analyze_compression_def Let_def to_transitions_HHHH get_runs_000
        single_run_codes)
  show ?thesis
    by (simp add: a b to_transitions_HTHT to_transitions_HHHH)
qed

subsection \<open>Grouped Huffman analysis (advanced\_compression.py)\<close>























section \<open>Grouping the runs loses nothing\<close>














section \<open>Inputs of at most one symbol\<close>



end
